theory Spec2Isabelle
  imports
    Complex_Main
    "HOL-Library.Multiset"
    "HOL-Library.Product_Lexorder"
    "HOL-Library.Sublist"
begin

section \<open>Subtitle generator: model of \<open>main.py\<close>\<close>


subsection \<open>Python string methods\<close>






definition is_digit :: "char \<Rightarrow> bool" where
  "is_digit c \<longleftrightarrow> c \<in> set ''0123456789''"

definition digit_val :: "char \<Rightarrow> nat" where
  "digit_val c = length (takeWhile (\<lambda>d. d \<noteq> c) ''0123456789'')"

definition int_of_str :: "string \<Rightarrow> nat" where
  \<comment> \<open>\<open>int(s)\<close> for a string of decimal digits\<close>
  "int_of_str s = foldl (\<lambda>a c. 10 * a + digit_val c) 0 s"

definition digit_char :: "nat \<Rightarrow> char" where
  "digit_char n = ''0123456789'' ! n"

fun str_nat :: "nat \<Rightarrow> string" where
  "str_nat n = (if n < 10 then [digit_char n] else str_nat (n div 10) @ [digit_char (n mod 10)])"

declare str_nat.simps [simp del]

definition zfill :: "nat \<Rightarrow> string \<Rightarrow> string" where
  "zfill w s = replicate (w - length s) CHR ''0'' @ s"

definition fmt_int :: "nat \<Rightarrow> int \<Rightarrow> string" where
  \<comment> \<open>\<open>"{:0w}".format(n)\<close>: the sign, then the digits padded with zeros to the width\<close>
  "fmt_int w n =
     (if n < 0 then CHR ''-'' # zfill (w - 1) (str_nat (nat (- n))) else zfill w (str_nat (nat n)))"

definition str_int :: "int \<Rightarrow> string" where
  \<comment> \<open>\<open>str(n)\<close>\<close>
  "str_int n = fmt_int 0 n"

subsection \<open>Regular expressions as ordered lists of successes\<close>

text \<open>
  A matcher returns every way to match a prefix of its input, as the matched text with the
  rest of the input, in the order in which a backtracking engine tries them: the head of the
  list is the match that \<open>re.match\<close> reports.
\<close>

type_synonym matcher = "string \<Rightarrow> (string \<times> string) list"

definition rx_class :: "(char \<Rightarrow> bool) \<Rightarrow> matcher" where
  "rx_class P s = (case s of [] \<Rightarrow> [] | c # r \<Rightarrow> if P c then [([c], r)] else [])"

definition rx_lit :: "string \<Rightarrow> matcher" where
  "rx_lit l s = (if prefix l s then [(l, drop (length l) s)] else [])"

definition rx_seq :: "matcher \<Rightarrow> matcher \<Rightarrow> matcher" where
  "rx_seq a b s = List.bind (a s) (\<lambda>(x, r). map (\<lambda>(y, r'). (x @ y, r')) (b r))"


primrec rx_times :: "nat \<Rightarrow> matcher \<Rightarrow> matcher" where
  "rx_times 0 a = (\<lambda>s. [([], s)])"
| "rx_times (Suc n) a = rx_seq a (rx_times n a)"


definition rx_dollar :: "matcher" where
  \<comment> \<open>\<open>$\<close> (no MULTILINE flag): the end of the string, or just before a line feed that ends it\<close>
  "rx_dollar s = (if s = [] \<or> s = ''\<newline>'' then [([], s)] else [])"

definition rx_digit :: "matcher" where
  "rx_digit = rx_class is_digit"

fun re_search :: "(string \<Rightarrow> 'a list) \<Rightarrow> string \<Rightarrow> 'a option" where
  \<comment> \<open>\<open>re.search\<close>: the first match at the leftmost position that has one\<close>
  "re_search m s =
     (case m s of
        x # _ \<Rightarrow> Some x
      | [] \<Rightarrow> (case s of [] \<Rightarrow> None | _ # r \<Rightarrow> re_search m r))"

declare re_search.simps [simp del]

subsection \<open>Time codec\<close>

record timedelta =
  days :: int
  seconds :: int
  microseconds :: int

definition round_half_even :: "real \<Rightarrow> int" where
  "round_half_even x =
     (let f = \<lfloor>x\<rfloor>; d = x - of_int f
      in if d < 1 / 2 then f else if 1 / 2 < d then f + 1 else if even f then f else f + 1)"

definition timedelta_of_seconds :: "real \<Rightarrow> timedelta" where
  \<comment> \<open>\<open>datetime.timedelta(seconds=x)\<close>: the duration rounded to the nearest microsecond
      (half to even) and normalised to \<open>0 \<le> seconds < 86400\<close>, \<open>0 \<le> microseconds < 10^6\<close>\<close>
  "timedelta_of_seconds x =
     (let us = round_half_even (x * 1000000)
      in \<lparr>days = us div 86400000000,
          seconds = (us mod 86400000000) div 1000000,
          microseconds = us mod 1000000\<rparr>)"

definition convert_to_srt_time :: "real \<Rightarrow> string" where
  "convert_to_srt_time time_in_seconds =
     (let formatted_time = timedelta_of_seconds time_in_seconds;
          hours = seconds formatted_time div 3600;
          remainder = seconds formatted_time mod 3600;
          minutes = remainder div 60;
          secs = remainder mod 60;
          hours = hours + days formatted_time * 24;
          milliseconds = microseconds formatted_time div 1000
      in fmt_int 2 hours @ '':'' @ fmt_int 2 minutes @ '':'' @ fmt_int 2 secs @ '',''
           @ fmt_int 3 milliseconds)"

record time =
  hour :: nat
  minute :: nat
  second :: nat
  microsecond :: nat

definition valid_time :: "time \<Rightarrow> bool" where
  \<comment> \<open>the ranges that the constructor of \<open>datetime.time\<close> enforces\<close>
  "valid_time t \<longleftrightarrow> hour t < 24 \<and> minute t < 60 \<and> second t < 60 \<and> microsecond t < 1000000"

definition time_key :: "time \<Rightarrow> nat \<times> nat \<times> nat \<times> nat" where
  \<comment> \<open>\<open>datetime.time\<close> objects compare as the tuples of their fields\<close>
  "time_key t = (hour t, minute t, second t, microsecond t)"

definition time_seconds :: "time \<Rightarrow> real" where
  \<comment> \<open>the time of day in seconds\<close>
  "time_seconds t =
     real (hour t) * 3600 + real (minute t) * 60 + real (second t) + real (microsecond t) / 1000000"










subsection \<open>Cue model and format codec\<close>

datatype index = IdxStr string | IdxInt int

record subtitle =
  sub_index :: index
  sub_start :: time
  sub_end :: time
  sub_text :: string

definition index_str :: "index \<Rightarrow> string" where
  \<comment> \<open>what an f-string prints for the index field: the token itself, or the decimal of the number\<close>
  "index_str i = (case i of IdxStr s \<Rightarrow> s | IdxInt n \<Rightarrow> str_int n)"






subsection \<open>Track merger\<close>

definition overlaps :: "subtitle \<Rightarrow> subtitle \<Rightarrow> bool" where
  \<comment> \<open>the test of line 114: \<open>sub.start < sub2.end and sub2.start < sub.end\<close>\<close>
  "overlaps sub sub2 \<longleftrightarrow>
     time_key (sub_start sub) < time_key (sub_end sub2) \<and>
     time_key (sub_start sub2) < time_key (sub_end sub)"

definition reindex :: "subtitle list \<Rightarrow> subtitle list" where
  \<comment> \<open>lines 118 to 121: the index of every subtitle becomes its position, from 1\<close>
  "reindex subs = map (\<lambda>(i, sub). sub\<lparr>sub_index := IdxInt (int i)\<rparr>) (enumerate 1 subs)"

definition merge_step :: "subtitle list \<Rightarrow> subtitle \<Rightarrow> subtitle list" where
  \<comment> \<open>one round of the loop of lines 112 to 121; \<open>sorted\<close> is stable, as \<open>sort_key\<close> is\<close>
  "merge_step merged_subtitles sub2 =
     reindex (sort_key (\<lambda>sub. time_key (sub_start sub))
                ([sub \<leftarrow> merged_subtitles. \<not> overlaps sub sub2] @ [sub2]))"

definition merge_subtitles :: "subtitle list \<Rightarrow> subtitle list \<Rightarrow> subtitle list" where
  "merge_subtitles subtitles1 subtitles2 = foldl merge_step subtitles1 subtitles2"


subsection \<open>Fragment coalescer\<close>

definition filename_regex :: "string \<Rightarrow> (string \<times> string) list" where
  \<comment> \<open>\<open>(\d{6})_(\d{6})\.json$\<close>: the two groups of every match at the start of the input\<close>
  "filename_regex s =
     List.bind (rx_times 6 rx_digit s) (\<lambda>(g1, r1).
     List.bind (rx_lit ''_'' r1) (\<lambda>(_, r2).
     List.bind (rx_times 6 rx_digit r2) (\<lambda>(g2, r3).
     List.bind (rx_lit ''.json'' r3) (\<lambda>(_, r4).
     List.bind (rx_dollar r4) (\<lambda>(_, r5). [(g1, g2)])))))"

definition extract_time_from_filename :: "string \<Rightarrow> nat option" where
  "extract_time_from_filename filename =
     (case re_search filename_regex filename of
        Some (time_segment, _) \<Rightarrow>
          (let hours = int_of_str time_segment div 10000;
               remainder = int_of_str time_segment mod 10000;
               minutes = remainder div 100;
               secs = remainder mod 100
           in Some (hours * 3600 + minutes * 60 + secs))
      | None \<Rightarrow> None)"

record segment =
  seg_start :: real
  seg_end :: real
  seg_text :: string

definition load_segments :: "(string \<times> segment list) list \<Rightarrow> segment list" where
  \<comment> \<open>lines 35 to 44: each chunk is a file name with the segments read from that file\<close>
  "load_segments json_files =
     concat (map (\<lambda>(json_file, data).
                    case extract_time_from_filename json_file of
                      Some offset \<Rightarrow>
                        map (\<lambda>seg. seg\<lparr>seg_start := seg_start seg + real offset,
                                        seg_end := seg_end seg + real offset\<rparr>) data
                    | None \<Rightarrow> data)
                 json_files)"

record entry =
  entry_index :: int
  entry_start :: real
  entry_end :: real
  entry_text :: string

fun coalesce_loop ::
  "segment list \<Rightarrow> int \<Rightarrow> (string \<times> real \<times> real) option \<Rightarrow> entry list
     \<Rightarrow> int \<times> (string \<times> real \<times> real) option \<times> entry list" where
  \<comment> \<open>the loop of lines 52 to 63; \<open>current_text\<close>, \<open>start_time\<close> and \<open>end_time\<close> are \<open>None\<close>
      together, so they are one optional triple\<close>
  "coalesce_loop [] index cur entries = (index, cur, entries)"
| "coalesce_loop (seg # segs) index cur entries =
     (case cur of
        None \<Rightarrow> coalesce_loop segs index (Some (seg_text seg, seg_start seg, seg_end seg)) entries
      | Some (current_text, start_time, end_time) \<Rightarrow>
          if current_text \<noteq> seg_text seg
          then coalesce_loop segs (index + 1) (Some (seg_text seg, seg_start seg, seg_end seg))
                 (entries @ [\<lparr>entry_index = index, entry_start = start_time,
                               entry_end = end_time, entry_text = current_text\<rparr>])
          else coalesce_loop segs index (Some (current_text, start_time, seg_end seg)) entries)"

definition emit_open_run :: "int \<times> (string \<times> real \<times> real) option \<times> entry list \<Rightarrow> entry list" where
  \<comment> \<open>lines 65 and 66, on the state that the loop leaves\<close>
  "emit_open_run st =
     (case st of
        (index, None, entries) \<Rightarrow> entries
      | (index, Some (current_text, start_time, end_time), entries) \<Rightarrow>
          entries @ [\<lparr>entry_index = index, entry_start = start_time,
                       entry_end = end_time, entry_text = current_text\<rparr>])"

definition coalesce :: "segment list \<Rightarrow> entry list" where
  \<comment> \<open>lines 46 to 66: the loop from the initial state, then the open run is emitted\<close>
  "coalesce segs = emit_open_run (coalesce_loop segs 1 None [])"

definition generate_subtitle_entry :: "entry \<Rightarrow> string" where
  "generate_subtitle_entry e =
     str_int (entry_index e) @ ''\<newline>'' @ convert_to_srt_time (entry_start e) @ '' --> ''
       @ convert_to_srt_time (entry_end e) @ ''\<newline>'' @ entry_text e @ ''\<newline>\<newline>''"

definition create_srt_content :: "(string \<times> segment list) list \<Rightarrow> string" where
  "create_srt_content json_files = concat (map generate_subtitle_entry (coalesce (load_segments json_files)))"

subsection \<open>Specification of the coalescer: maximal runs of equal text\<close>

function runs :: "segment list \<Rightarrow> segment list list" where
  \<comment> \<open>the maximal runs of consecutive segments that carry the same text\<close>
  "runs [] = []"
| "runs (x # xs) =
     (x # takeWhile (\<lambda>y. seg_text y = seg_text x) xs)
       # runs (dropWhile (\<lambda>y. seg_text y = seg_text x) xs)"
  by pat_completeness auto
termination
  by (relation "measure length") (auto simp: length_dropWhile_le less_Suc_eq_le)

definition cue_of_run :: "int \<Rightarrow> segment list \<Rightarrow> entry" where
  \<comment> \<open>the cue of a run: from the start of its first segment to the end of its last one\<close>
  "cue_of_run i r =
     \<lparr>entry_index = i, entry_start = seg_start (hd r), entry_end = seg_end (last r),
      entry_text = seg_text (hd r)\<rparr>"

definition run_cues :: "segment list \<Rightarrow> entry list" where
  \<comment> \<open>one cue per maximal run, numbered from 1\<close>
  "run_cues segs = map (\<lambda>(i, r). cue_of_run (int i) r) (enumerate 1 (runs segs))"

subsection \<open>Specification of tracks\<close>

definition cue_body :: "subtitle \<Rightarrow> time \<times> time \<times> string" where
  \<comment> \<open>a cue without its index\<close>
  "cue_body sub = (sub_start sub, sub_end sub, sub_text sub)"

definition ends_before :: "subtitle \<Rightarrow> subtitle \<Rightarrow> bool" where
  \<comment> \<open>\<open>a.end <= b.start\<close>\<close>
  "ends_before a b \<longleftrightarrow> time_key (sub_end a) \<le> time_key (sub_start b)"

definition positive_length :: "subtitle \<Rightarrow> bool" where
  \<comment> \<open>\<open>sub.start < sub.end\<close>\<close>
  "positive_length sub \<longleftrightarrow> time_key (sub_start sub) < time_key (sub_end sub)"

definition well_formed_cue :: "subtitle \<Rightarrow> bool" where
  \<comment> \<open>the cue invariant \<open>start <= end\<close>\<close>
  "well_formed_cue sub \<longleftrightarrow> time_key (sub_start sub) \<le> time_key (sub_end sub)"

definition contiguous_indices :: "subtitle list \<Rightarrow> bool" where
  \<comment> \<open>the index of the cue at position \<open>i\<close> (from 0) prints as the decimal of \<open>i + 1\<close>\<close>
  "contiguous_indices subs \<longleftrightarrow>
     map (\<lambda>sub. index_str (sub_index sub)) subs = map (\<lambda>i. str_int (int i)) [1 ..< Suc (length subs)]"

definition track_invariant :: "subtitle list \<Rightarrow> bool" where
  \<comment> \<open>the track invariant of the spec: every cue has \<open>start <= end\<close>, the cues are ordered by
      start, a cue ends before every later cue starts, and the indices count from 1\<close>
  "track_invariant subs \<longleftrightarrow>
     list_all well_formed_cue subs \<and>
     sorted (map (\<lambda>sub. time_key (sub_start sub)) subs) \<and>
     sorted_wrt ends_before subs \<and>
     contiguous_indices subs"

definition no_overlap_within :: "subtitle list \<Rightarrow> bool" where
  \<comment> \<open>no cue of the list overlaps a later cue of the list\<close>
  "no_overlap_within subs \<longleftrightarrow> sorted_wrt (\<lambda>a b. \<not> overlaps a b) subs"

definition cue_at :: "string \<Rightarrow> nat \<Rightarrow> nat \<Rightarrow> string \<Rightarrow> subtitle" where
  \<comment> \<open>for examples: the cue with an index token, from second \<open>s\<close> to second \<open>e\<close> of the first minute\<close>
  "cue_at idx s e txt =
     \<lparr>sub_index = IdxStr idx,
      sub_start = \<lparr>hour = 0, minute = 0, second = s, microsecond = 0\<rparr>,
      sub_end = \<lparr>hour = 0, minute = 0, second = e, microsecond = 0\<rparr>,
      sub_text = txt\<rparr>"

subsection \<open>The merger on cues without their index\<close>

text \<open>
  The loop of the merger reads the index of no cue, so it has a shadow on the bodies of the
  cues; the lemmas about the loop are proved on the shadow and carried over.
\<close>

type_synonym body = "time \<times> time \<times> string"

definition body_start :: "body \<Rightarrow> nat \<times> nat \<times> nat \<times> nat" where
  "body_start b = time_key (fst b)"

definition body_end :: "body \<Rightarrow> nat \<times> nat \<times> nat \<times> nat" where
  "body_end b = time_key (fst (snd b))"

definition body_overlaps :: "body \<Rightarrow> body \<Rightarrow> bool" where
  "body_overlaps a b \<longleftrightarrow> body_start a < body_end b \<and> body_start b < body_end a"

definition body_step :: "body list \<Rightarrow> body \<Rightarrow> body list" where
  "body_step merged b = sort_key body_start ([a \<leftarrow> merged. \<not> body_overlaps a b] @ [b])"

definition body_track :: "body list \<Rightarrow> bool" where
  \<comment> \<open>every cue has \<open>start <= end\<close>, and a cue ends before every later cue starts\<close>
  "body_track bs \<longleftrightarrow>
     list_all (\<lambda>b. body_start b \<le> body_end b) bs \<and>
     sorted_wrt (\<lambda>a b. body_end a \<le> body_start b) bs"

section \<open>The fragment coalescer\<close>

lemma coalesce_loop_same_text:
  "\<forall>y \<in> set ys. seg_text y = t \<Longrightarrow>
   coalesce_loop (ys @ zs) i (Some (t, s, e)) acc =
   coalesce_loop zs i (Some (t, s, if ys = [] then e else seg_end (last ys))) acc"
  by (induction ys arbitrary: e) auto

lemma coalesce_loop_first:
  "coalesce_loop (x # xs) i None acc =
   coalesce_loop (dropWhile (\<lambda>y. seg_text y = seg_text x) xs) i
     (Some (seg_text x, seg_start x, seg_end (last (x # takeWhile (\<lambda>y. seg_text y = seg_text x) xs)))) acc"
proof -
  let ?P = "\<lambda>y. seg_text y = seg_text x"
  have "coalesce_loop (x # xs) i None acc =
        coalesce_loop (takeWhile ?P xs @ dropWhile ?P xs) i (Some (seg_text x, seg_start x, seg_end x)) acc"
    by simp
  also have "\<dots> = coalesce_loop (dropWhile ?P xs) i
     (Some (seg_text x, seg_start x,
            if takeWhile ?P xs = [] then seg_end x else seg_end (last (takeWhile ?P xs)))) acc"
    by (rule coalesce_loop_same_text) (auto dest: set_takeWhileD)
  finally show ?thesis by simp
qed

lemma coalesce_loop_close:
  "zs = [] \<or> seg_text (hd zs) \<noteq> t \<Longrightarrow>
   emit_open_run (coalesce_loop zs i (Some (t, s, e)) acc) =
   emit_open_run (coalesce_loop zs (i + 1) None
     (acc @ [\<lparr>entry_index = i, entry_start = s, entry_end = e, entry_text = t\<rparr>]))"
  by (cases zs) (auto simp: emit_open_run_def)

lemma dropWhile_hd_text:
  "dropWhile (\<lambda>y. seg_text y = t) xs = [] \<or> seg_text (hd (dropWhile (\<lambda>y. seg_text y = t) xs)) \<noteq> t"
  using hd_dropWhile [of "\<lambda>y. seg_text y = t" xs] by blast

lemma emit_coalesce_loop:
  "emit_open_run (coalesce_loop segs (int n) None acc) =
   acc @ map (\<lambda>(i, r). cue_of_run (int i) r) (enumerate n (runs segs))"
proof (induction segs arbitrary: n acc rule: runs.induct)
  case 1
  show ?case by (simp add: emit_open_run_def)
next
  case (2 x xs)
  let ?P = "\<lambda>y. seg_text y = seg_text x"
  let ?r = "x # takeWhile ?P xs"
  let ?c = "\<lparr>entry_index = int n, entry_start = seg_start x, entry_end = seg_end (last ?r),
             entry_text = seg_text x\<rparr>"
  have "emit_open_run (coalesce_loop (x # xs) (int n) None acc) =
        emit_open_run (coalesce_loop (dropWhile ?P xs) (int n)
          (Some (seg_text x, seg_start x, seg_end (last ?r))) acc)"
    by (simp only: coalesce_loop_first)
  also have "\<dots> = emit_open_run (coalesce_loop (dropWhile ?P xs) (int n + 1) None (acc @ [?c]))"
    by (rule coalesce_loop_close) (rule dropWhile_hd_text)
  also have "\<dots> = emit_open_run (coalesce_loop (dropWhile ?P xs) (int (Suc n)) None (acc @ [?c]))"
    by (simp add: add.commute)
  also have "\<dots> = (acc @ [?c]) @ map (\<lambda>(i, r). cue_of_run (int i) r)
                        (enumerate (Suc n) (runs (dropWhile ?P xs)))"
    by (rule "2.IH")
  finally show ?case by (simp add: cue_of_run_def)
qed

lemma coalesce_run_cues: "coalesce segs = run_cues segs"
  using emit_coalesce_loop [of segs 1 "[]"] by (simp add: coalesce_def run_cues_def)

lemma concat_runs: "concat (runs segs) = segs"
  by (induction segs rule: runs.induct) simp_all

lemma runs_nonempty: "r \<in> set (runs segs) \<Longrightarrow> r \<noteq> []"
  by (induction segs rule: runs.induct) auto

lemma runs_same_text: "r \<in> set (runs segs) \<Longrightarrow> s \<in> set r \<Longrightarrow> seg_text s = seg_text (hd r)"
  by (induction segs rule: runs.induct) (auto dest: set_takeWhileD)

lemma runs_hd: "segs \<noteq> [] \<Longrightarrow> hd (hd (runs segs)) = hd segs"
  by (cases segs) auto

lemma runs_Nil_iff: "runs segs = [] \<longleftrightarrow> segs = []"
  by (cases segs) auto

lemma runs_adjacent_differ:
  "Suc i < length (runs segs) \<Longrightarrow>
   seg_text (hd (runs segs ! i)) \<noteq> seg_text (hd (runs segs ! Suc i))"
proof (induction segs arbitrary: i rule: runs.induct)
  case 1
  then show ?case by simp
next
  case (2 x xs)
  let ?P = "\<lambda>y. seg_text y = seg_text x"
  show ?case
  proof (cases i)
    case 0
    with "2.prems" have ne: "dropWhile ?P xs \<noteq> []" by (auto simp: runs_Nil_iff)
    then have d: "seg_text (hd (dropWhile ?P xs)) \<noteq> seg_text x"
      using dropWhile_hd_text [of "seg_text x" xs] by blast
    have "runs (dropWhile ?P xs) \<noteq> []" using ne by (simp add: runs_Nil_iff)
    then have "runs (dropWhile ?P xs) ! 0 = hd (runs (dropWhile ?P xs))"
      by (simp add: hd_conv_nth)
    then have "hd (runs (x # xs) ! Suc 0) = hd (dropWhile ?P xs)"
      using runs_hd [OF ne] by simp
    moreover have "hd (runs (x # xs) ! 0) = x" by simp
    ultimately show ?thesis using d 0 by metis
  next
    case (Suc j)
    with "2.prems" "2.IH" [of j] show ?thesis by simp
  qed
qed

lemma length_run_cues: "length (run_cues segs) = length (runs segs)"
  by (simp add: run_cues_def)

lemma nth_run_cues:
  "i < length (runs segs) \<Longrightarrow> run_cues segs ! i = cue_of_run (int i + 1) (runs segs ! i)"
  by (simp add: run_cues_def nth_enumerate_eq add.commute)

lemma sorted_map_concat_member:
  "sorted (map f (concat xss)) \<Longrightarrow> xs \<in> set xss \<Longrightarrow> sorted (map f xs)"
  by (induction xss) (auto simp: sorted_append)

lemma sorted_hd_le_last:
  "sorted (map f xs) \<Longrightarrow> xs \<noteq> [] \<Longrightarrow> (f (hd xs) :: real) \<le> f (last xs)"
  by (cases xs) (auto simp: last_in_set)

lemma run_start_le_end:
  assumes wf: "\<forall>s \<in> set segs. seg_start s \<le> seg_end s"
    and srt: "sorted (map seg_start segs)"
    and r: "r \<in> set (runs segs)"
  shows "seg_start (hd r) \<le> seg_end (last r)"
proof -
  have ne: "r \<noteq> []" using r by (rule runs_nonempty)
  have "sorted (map seg_start r)"
    using srt r sorted_map_concat_member [of seg_start "runs segs" r] by (simp add: concat_runs)
  then have "seg_start (hd r) \<le> seg_start (last r)" using ne by (rule sorted_hd_le_last)
  moreover have "last r \<in> set segs"
    using r ne concat_runs [of segs] by (metis last_in_set set_concat UN_I)
  ultimately show ?thesis using wf by force
qed

text \<open>
  C2. The coalescer emits exactly one cue per maximal run of consecutive segments with equal
  text: the runs are non-empty, uniform in their text, differ in text from one run to the
  next and concatenate to the input; the cue at position \<open>i\<close> has index \<open>i + 1\<close>, the start
  of the first segment of run \<open>i\<close>, the end of its last segment and the text of the run. No
  segment gives no cue, and the spec's example gives its two cues.
\<close>

theorem coalescer_one_cue_per_run:
  "length (coalesce segs) = length (runs segs)
   \<and> (\<forall>i < length (runs segs). coalesce segs ! i = cue_of_run (int i + 1) (runs segs ! i))
   \<and> concat (runs segs) = segs
   \<and> (\<forall>r \<in> set (runs segs). r \<noteq> [] \<and> (\<forall>s \<in> set r. seg_text s = seg_text (hd r)))
   \<and> (\<forall>i. Suc i < length (runs segs) \<longrightarrow>
          seg_text (hd (runs segs ! i)) \<noteq> seg_text (hd (runs segs ! Suc i)))
   \<and> coalesce [] = []
   \<and> coalesce [\<lparr>seg_start = 0, seg_end = 1, seg_text = ''hi''\<rparr>,
                \<lparr>seg_start = 1, seg_end = 2, seg_text = ''hi''\<rparr>,
                \<lparr>seg_start = 2, seg_end = 3, seg_text = ''bye''\<rparr>]
       = [\<lparr>entry_index = 1, entry_start = 0, entry_end = 2, entry_text = ''hi''\<rparr>,
          \<lparr>entry_index = 2, entry_start = 2, entry_end = 3, entry_text = ''bye''\<rparr>]"
proof -
  have "length (coalesce segs) = length (runs segs)"
    by (simp add: coalesce_run_cues length_run_cues)
  moreover have "\<forall>i < length (runs segs). coalesce segs ! i = cue_of_run (int i + 1) (runs segs ! i)"
    by (simp add: coalesce_run_cues nth_run_cues)
  moreover have "concat (runs segs) = segs" by (rule concat_runs)
  moreover have "\<forall>r \<in> set (runs segs). r \<noteq> [] \<and> (\<forall>s \<in> set r. seg_text s = seg_text (hd r))"
    using runs_nonempty runs_same_text by blast
  moreover have "\<forall>i. Suc i < length (runs segs) \<longrightarrow>
          seg_text (hd (runs segs ! i)) \<noteq> seg_text (hd (runs segs ! Suc i))"
    using runs_adjacent_differ by blast
  moreover have "coalesce [] = []" by (simp add: coalesce_def emit_open_run_def)
  moreover have "coalesce [\<lparr>seg_start = 0, seg_end = 1, seg_text = ''hi''\<rparr>,
                \<lparr>seg_start = 1, seg_end = 2, seg_text = ''hi''\<rparr>,
                \<lparr>seg_start = 2, seg_end = 3, seg_text = ''bye''\<rparr>]
       = [\<lparr>entry_index = 1, entry_start = 0, entry_end = 2, entry_text = ''hi''\<rparr>,
          \<lparr>entry_index = 2, entry_start = 2, entry_end = 3, entry_text = ''bye''\<rparr>]"
    by (simp add: coalesce_def emit_open_run_def)
  ultimately show ?thesis by blast
qed

text \<open>C2 at the spec's example: two runs, and the second cue is the cue of the second run.\<close>

theorem coalescer_one_cue_per_run_witness:
  "runs [\<lparr>seg_start = 0, seg_end = 1, seg_text = ''hi''\<rparr>,
         \<lparr>seg_start = 1, seg_end = 2, seg_text = ''hi''\<rparr>,
         \<lparr>seg_start = 2, seg_end = 3, seg_text = ''bye''\<rparr>]
     = [[\<lparr>seg_start = 0, seg_end = 1, seg_text = ''hi''\<rparr>,
         \<lparr>seg_start = 1, seg_end = 2, seg_text = ''hi''\<rparr>],
        [\<lparr>seg_start = 2, seg_end = 3, seg_text = ''bye''\<rparr>]]
   \<and> coalesce [\<lparr>seg_start = 0, seg_end = 1, seg_text = ''hi''\<rparr>,
                \<lparr>seg_start = 1, seg_end = 2, seg_text = ''hi''\<rparr>,
                \<lparr>seg_start = 2, seg_end = 3, seg_text = ''bye''\<rparr>] ! 1
       = cue_of_run 2 [\<lparr>seg_start = 2, seg_end = 3, seg_text = ''bye''\<rparr>]
   \<and> seg_text (hd [\<lparr>seg_start = 0, seg_end = 1, seg_text = ''hi''\<rparr>,
                    \<lparr>seg_start = 1, seg_end = 2, seg_text = ''hi''\<rparr>])
       \<noteq> seg_text (hd [\<lparr>seg_start = 2, seg_end = 3, seg_text = ''bye''\<rparr>])"
  using coalescer_one_cue_per_run
    [of "[\<lparr>seg_start = 0, seg_end = 1, seg_text = ''hi''\<rparr>,
          \<lparr>seg_start = 1, seg_end = 2, seg_text = ''hi''\<rparr>,
          \<lparr>seg_start = 2, seg_end = 3, seg_text = ''bye''\<rparr>]"]
  by (simp add: cue_of_run_def)

text \<open>
  C5 fails as stated: two well-formed segments with the same text, the later one earlier in
  time (segments are never sorted), give one cue that starts at 5 and ends at 1.
\<close>

theorem coalescer_start_after_end_counterexample:
  "coalesce [\<lparr>seg_start = 5, seg_end = 6, seg_text = ''a''\<rparr>,
             \<lparr>seg_start = 0, seg_end = 1, seg_text = ''a''\<rparr>]
     = [\<lparr>entry_index = 1, entry_start = 5, entry_end = 1, entry_text = ''a''\<rparr>]
   \<and> \<not> entry_start \<lparr>entry_index = 1, entry_start = 5, entry_end = 1, entry_text = ''a''\<rparr>
         \<le> entry_end \<lparr>entry_index = 1, entry_start = 5, entry_end = 1, entry_text = ''a''\<rparr>"
  by (simp add: coalesce_def emit_open_run_def)

text \<open>
  C5, amended. When every segment has \<open>start \<le> end\<close> and the segments come in
  non-decreasing order of start, every cue that the coalescer emits has \<open>start \<le> end\<close>.
\<close>

theorem coalescer_start_le_end:
  assumes "\<forall>s \<in> set segs. seg_start s \<le> seg_end s"
    and "sorted (map seg_start segs)"
  shows "\<forall>e \<in> set (coalesce segs). entry_start e \<le> entry_end e"
proof
  fix e
  assume "e \<in> set (coalesce segs)"
  then obtain i where i: "i < length (runs segs)" and e: "e = run_cues segs ! i"
    by (auto simp: coalesce_run_cues in_set_conv_nth length_run_cues)
  have "runs segs ! i \<in> set (runs segs)" using i by simp
  then have "seg_start (hd (runs segs ! i)) \<le> seg_end (last (runs segs ! i))"
    using assms run_start_le_end by blast
  then show "entry_start e \<le> entry_end e"
    using i e by (simp add: nth_run_cues cue_of_run_def)
qed

text \<open>C5, amended, at the spec's example.\<close>

theorem coalescer_start_le_end_witness:
  "list_all (\<lambda>s. seg_start s \<le> seg_end s)
     [\<lparr>seg_start = 0, seg_end = 1, seg_text = ''hi''\<rparr>,
      \<lparr>seg_start = 1, seg_end = 2, seg_text = ''hi''\<rparr>,
      \<lparr>seg_start = 2, seg_end = 3, seg_text = ''bye''\<rparr>]
   \<and> sorted (map seg_start
       [\<lparr>seg_start = 0, seg_end = 1, seg_text = ''hi''\<rparr>,
        \<lparr>seg_start = 1, seg_end = 2, seg_text = ''hi''\<rparr>,
        \<lparr>seg_start = 2, seg_end = 3, seg_text = ''bye''\<rparr>])
   \<and> list_all (\<lambda>e. entry_start e \<le> entry_end e)
       (coalesce [\<lparr>seg_start = 0, seg_end = 1, seg_text = ''hi''\<rparr>,
                  \<lparr>seg_start = 1, seg_end = 2, seg_text = ''hi''\<rparr>,
                  \<lparr>seg_start = 2, seg_end = 3, seg_text = ''bye''\<rparr>])"
proof -
  have h1: "\<forall>s \<in> set [\<lparr>seg_start = 0, seg_end = 1, seg_text = ''hi''\<rparr>,
                \<lparr>seg_start = 1, seg_end = 2, seg_text = ''hi''\<rparr>,
                \<lparr>seg_start = 2, seg_end = 3, seg_text = ''bye''\<rparr>]. seg_start s \<le> seg_end s"
    by simp
  have h2: "sorted (map seg_start [\<lparr>seg_start = 0, seg_end = 1, seg_text = ''hi''\<rparr>,
                \<lparr>seg_start = 1, seg_end = 2, seg_text = ''hi''\<rparr>,
                \<lparr>seg_start = 2, seg_end = 3, seg_text = ''bye''\<rparr>])"
    by simp
  show ?thesis using h1 h2 coalescer_start_le_end [OF h1 h2] by (simp only: list_all_iff)
qed

section \<open>The track merger\<close>

subsection \<open>Re-indexing keeps start, end and text\<close>

lemma map_cue_body_enumerate:
  "map cue_body (map (\<lambda>(i, sub). sub\<lparr>sub_index := IdxInt (int i)\<rparr>) (enumerate n subs)) = map cue_body subs"
  by (induction subs arbitrary: n) (simp_all add: cue_body_def)

lemma map_cue_body_reindex [simp]: "map cue_body (reindex subs) = map cue_body subs"
  unfolding reindex_def by (rule map_cue_body_enumerate)

lemma length_reindex [simp]: "length (reindex subs) = length subs"
  by (simp add: reindex_def)

lemma reindex_Nil [simp]: "reindex [] = []"
  by (simp add: reindex_def)

lemma nth_reindex:
  "i < length subs \<Longrightarrow> reindex subs ! i = (subs ! i)\<lparr>sub_index := IdxInt (int i + 1)\<rparr>"
  by (simp add: reindex_def nth_enumerate_eq add.commute)

lemma contiguous_indices_reindex: "contiguous_indices (reindex subs)"
  unfolding contiguous_indices_def
  by (rule nth_equalityI) (simp_all add: nth_reindex index_str_def add.commute del: upt_Suc)

subsection \<open>The merger and its shadow on bodies\<close>

lemma body_start_cue_body [simp]: "body_start (cue_body sub) = time_key (sub_start sub)"
  by (simp add: body_start_def cue_body_def)

lemma body_end_cue_body [simp]: "body_end (cue_body sub) = time_key (sub_end sub)"
  by (simp add: body_end_def cue_body_def)

lemma body_overlaps_cue_body [simp]: "body_overlaps (cue_body a) (cue_body b) = overlaps a b"
  by (simp add: body_overlaps_def overlaps_def)

lemma map_cue_body_insort_key:
  "map cue_body (insort_key (\<lambda>sub. time_key (sub_start sub)) x xs) =
   insort_key body_start (cue_body x) (map cue_body xs)"
  by (induction xs) simp_all

lemma map_cue_body_sort_key:
  "map cue_body (sort_key (\<lambda>sub. time_key (sub_start sub)) xs) =
   sort_key body_start (map cue_body xs)"
  by (induction xs) (simp_all add: map_cue_body_insort_key)

lemma map_cue_body_filter_overlaps:
  "map cue_body [sub \<leftarrow> xs. \<not> overlaps sub n] =
   [a \<leftarrow> map cue_body xs. \<not> body_overlaps a (cue_body n)]"
  by (induction xs) simp_all

lemma map_cue_body_merge_step:
  "map cue_body (merge_step merged n) = body_step (map cue_body merged) (cue_body n)"
  by (simp add: merge_step_def body_step_def map_cue_body_sort_key map_cue_body_filter_overlaps)

lemma map_cue_body_merge_subtitles:
  "map cue_body (merge_subtitles old new) = foldl body_step (map cue_body old) (map cue_body new)"
  unfolding merge_subtitles_def
  by (induction new arbitrary: old) (simp_all add: map_cue_body_merge_step)

lemma merge_subtitles_Nil [simp]: "merge_subtitles old [] = old"
  by (simp add: merge_subtitles_def)

lemma merge_subtitles_reindexed:
  "new \<noteq> [] \<Longrightarrow> \<exists>xs. merge_subtitles old new = reindex xs"
proof (induction new arbitrary: old rule: rev_induct)
  case Nil
  then show ?case by simp
next
  case (snoc n ns)
  show ?case by (auto simp: merge_subtitles_def merge_step_def)
qed

lemma track_invariant_body:
  "track_invariant subs \<longleftrightarrow> body_track (map cue_body subs) \<and> contiguous_indices subs"
proof -
  have a: "list_all well_formed_cue subs = list_all (\<lambda>b. body_start b \<le> body_end b) (map cue_body subs)"
    by (simp add: list_all_iff well_formed_cue_def)
  have b: "sorted_wrt ends_before subs =
           sorted_wrt (\<lambda>a b. body_end a \<le> body_start b) (map cue_body subs)"
  proof -
    have "ends_before = (\<lambda>x y. time_key (sub_end x) \<le> time_key (sub_start y))"
      by (intro ext) (simp add: ends_before_def)
    then show ?thesis by (simp add: sorted_wrt_map)
  qed
  have c: "list_all (\<lambda>b. body_start b \<le> body_end b) bs \<Longrightarrow>
           sorted_wrt (\<lambda>a b. body_end a \<le> body_start b) bs \<Longrightarrow> sorted (map body_start bs)" for bs
    by (induction bs) (auto intro: order_trans)
  have d: "map (\<lambda>sub. time_key (sub_start sub)) subs = map body_start (map cue_body subs)"
    by simp
  show ?thesis
    unfolding track_invariant_def body_track_def a b d using c by blast
qed

subsection \<open>The loop on bodies\<close>



lemma sort_key_snoc:
  fixes f :: "'a \<Rightarrow> 'k::linorder"
  shows "sorted (map f xs) \<Longrightarrow>
         sort_key f (xs @ [n]) = [x \<leftarrow> xs. f x \<le> f n] @ n # [x \<leftarrow> xs. f n < f x]"
proof (induction xs)
  case Nil
  then show ?case by simp
next
  case (Cons x xs)
  then have le: "\<forall>y \<in> set xs. f x \<le> f y" and srt: "sorted (map f xs)" by simp_all
  have step: "sort_key f ((x # xs) @ [n]) =
              insort_key f x ([y \<leftarrow> xs. f y \<le> f n] @ n # [y \<leftarrow> xs. f n < f y])"
    using Cons.IH [OF srt] by simp
  show ?case
  proof (cases "f x \<le> f n")
    case True
    then have "\<forall>y \<in> set ([y \<leftarrow> xs. f y \<le> f n] @ n # [y \<leftarrow> xs. f n < f y]). f x \<le> f y"
      using le by auto
    then have "insort_key f x ([y \<leftarrow> xs. f y \<le> f n] @ n # [y \<leftarrow> xs. f n < f y]) =
               x # [y \<leftarrow> xs. f y \<le> f n] @ n # [y \<leftarrow> xs. f n < f y]"
      by (rule insort_is_Cons)
    with step True show ?thesis by simp
  next
    case False
    then have lt: "f n < f x" by simp
    with le have all: "\<forall>y \<in> set xs. f n < f y" by (meson less_le_trans)
    then have e1: "[y \<leftarrow> xs. f y \<le> f n] = []" by (auto simp: filter_empty_conv)
    have e2: "[y \<leftarrow> xs. f n < f y] = xs" using all by (simp add: filter_id_conv)
    have "insort_key f x xs = x # xs" using le by (rule insort_is_Cons)
    with step e1 e2 lt show ?thesis by simp
  qed
qed

lemma body_track_sorted: "body_track bs \<Longrightarrow> sorted (map body_start bs)"
  unfolding body_track_def by (induction bs) (auto intro: order_trans)

lemma body_track_filter: "body_track bs \<Longrightarrow> body_track (filter P bs)"
  unfolding body_track_def by (auto simp: list_all_iff sorted_wrt_filter)

lemma body_step_explicit:
  assumes "body_track merged"
  shows "body_step merged n =
         [a \<leftarrow> [a \<leftarrow> merged. \<not> body_overlaps a n]. body_start a \<le> body_start n]
           @ n # [a \<leftarrow> [a \<leftarrow> merged. \<not> body_overlaps a n]. body_start n < body_start a]"
  unfolding body_step_def
  by (rule sort_key_snoc) (rule body_track_sorted, rule body_track_filter, rule assms)

lemma body_track_step:
  assumes tr: "body_track merged" and pos: "body_start n < body_end n"
  shows "body_track (body_step merged n)"
proof -
  let ?K = "[a \<leftarrow> merged. \<not> body_overlaps a n]"
  let ?A = "[a \<leftarrow> ?K. body_start a \<le> body_start n]"
  let ?B = "[a \<leftarrow> ?K. body_start n < body_start a]"
  let ?R = "\<lambda>a b. body_end a \<le> body_start b"
  have K: "body_track ?K" using tr by (rule body_track_filter)
  have wf: "\<forall>a \<in> set merged. body_start a \<le> body_end a"
    using tr by (simp add: body_track_def list_all_iff)
  have A: "sorted_wrt ?R ?A" using body_track_filter [OF K] by (simp add: body_track_def)
  have B: "sorted_wrt ?R ?B" using body_track_filter [OF K] by (simp add: body_track_def)
  have An: "\<forall>a \<in> set ?A. ?R a n"
  proof
    fix a assume "a \<in> set ?A"
    then have "\<not> body_overlaps a n" and "body_start a \<le> body_start n" by simp_all
    with pos show "?R a n" unfolding body_overlaps_def by auto
  qed
  have nB: "\<forall>b \<in> set ?B. ?R n b"
  proof
    fix b assume "b \<in> set ?B"
    then have "\<not> body_overlaps b n" and "body_start n < body_start b" and "body_start b \<le> body_end b"
      using wf by simp_all
    then show "?R n b" unfolding body_overlaps_def by auto
  qed
  have AB: "\<forall>a \<in> set ?A. \<forall>b \<in> set ?B. ?R a b"
  proof (intro ballI)
    fix a b assume a: "a \<in> set ?A" and b: "b \<in> set ?B"
    from a An have "?R a n" by blast
    moreover from b have "body_start n < body_start b" by simp
    ultimately show "?R a b" by simp
  qed
  have "sorted_wrt ?R (?A @ n # ?B)"
    using A B An nB AB by (simp add: sorted_wrt_append)
  moreover have "list_all (\<lambda>b. body_start b \<le> body_end b) (?A @ n # ?B)"
    using wf pos by (auto simp: list_all_iff)
  ultimately show ?thesis
    unfolding body_step_explicit [OF tr] by (simp add: body_track_def)
qed

lemma body_track_foldl_step:
  "body_track merged \<Longrightarrow> \<forall>n \<in> set new. body_start n < body_end n \<Longrightarrow>
   body_track (foldl body_step merged new)"
  by (induction new arbitrary: merged) (simp_all add: body_track_step)



subsection \<open>Evaluation of the codec on literals\<close>



lemma str_nat_digit: "n < 10 \<Longrightarrow> str_nat n = [digit_char n]"
  by (simp add: str_nat.simps)






lemmas merge_eval =
  merge_subtitles_def merge_step_def overlaps_def time_key_def reindex_def





lemma merge_zero_length:
  "merge_subtitles
     [\<lparr>sub_index = IdxStr ''1'',
         sub_start = \<lparr>hour = 0, minute = 0, second = 3, microsecond = 0\<rparr>,
         sub_end = \<lparr>hour = 0, minute = 0, second = 5, microsecond = 0\<rparr>,
         sub_text = ''A''\<rparr>]
     [\<lparr>sub_index = IdxStr ''1'',
         sub_start = \<lparr>hour = 0, minute = 0, second = 3, microsecond = 0\<rparr>,
         sub_end = \<lparr>hour = 0, minute = 0, second = 3, microsecond = 0\<rparr>,
         sub_text = ''B''\<rparr>]
   = [\<lparr>sub_index = IdxInt 1,
         sub_start = \<lparr>hour = 0, minute = 0, second = 3, microsecond = 0\<rparr>,
         sub_end = \<lparr>hour = 0, minute = 0, second = 5, microsecond = 0\<rparr>,
         sub_text = ''A''\<rparr>,
      \<lparr>sub_index = IdxInt 2,
         sub_start = \<lparr>hour = 0, minute = 0, second = 3, microsecond = 0\<rparr>,
         sub_end = \<lparr>hour = 0, minute = 0, second = 3, microsecond = 0\<rparr>,
         sub_text = ''B''\<rparr>]"
  by (simp add: merge_eval)





lemma merge_track_invariant_aux:
  assumes old: "track_invariant old" and pos: "list_all positive_length new"
  shows "track_invariant (merge_subtitles old new)"
proof (cases "new = []")
  case True
  with old show ?thesis by simp
next
  case False
  then obtain xs where "merge_subtitles old new = reindex xs"
    using merge_subtitles_reindexed by blast
  then have idx: "contiguous_indices (merge_subtitles old new)"
    by (simp add: contiguous_indices_reindex)
  have "body_track (map cue_body old)" using old by (simp add: track_invariant_body)
  moreover have "\<forall>n \<in> set (map cue_body new). body_start n < body_end n"
    using pos by (auto simp: list_all_iff positive_length_def)
  ultimately have "body_track (map cue_body (merge_subtitles old new))"
    unfolding map_cue_body_merge_subtitles by (rule body_track_foldl_step)
  with idx show ?thesis by (simp add: track_invariant_body)
qed

lemmas track_eval =
  track_invariant_def contiguous_indices_def well_formed_cue_def ends_before_def positive_length_def
  no_overlap_within_def overlaps_def time_key_def cue_at_def index_str_def str_int_def fmt_int_def
  zfill_def str_nat_digit digit_char_def upt_rec









text \<open>
  C4 fails as stated: a new cue of length zero that starts where an existing cue starts does
  not overlap it under the strict test, and the stable sort puts it after the existing cue.
  Both tracks satisfy the invariant, the merged track has 3 to 5 followed by 3 to 3.
\<close>

theorem merge_breaks_invariant_counterexample:
  "track_invariant [cue_at ''1'' 3 5 ''A'']
   \<and> track_invariant [cue_at ''1'' 3 3 ''B'']
   \<and> merge_subtitles [cue_at ''1'' 3 5 ''A''] [cue_at ''1'' 3 3 ''B'']
       = [(cue_at ''1'' 3 5 ''A'')\<lparr>sub_index := IdxInt 1\<rparr>, (cue_at ''1'' 3 3 ''B'')\<lparr>sub_index := IdxInt 2\<rparr>]
   \<and> \<not> ends_before (cue_at ''1'' 3 5 ''A'') (cue_at ''1'' 3 3 ''B'')
   \<and> \<not> track_invariant (merge_subtitles [cue_at ''1'' 3 5 ''A''] [cue_at ''1'' 3 3 ''B''])"
proof -
  have m: "merge_subtitles [cue_at ''1'' 3 5 ''A''] [cue_at ''1'' 3 3 ''B'']
       = [(cue_at ''1'' 3 5 ''A'')\<lparr>sub_index := IdxInt 1\<rparr>, (cue_at ''1'' 3 3 ''B'')\<lparr>sub_index := IdxInt 2\<rparr>]"
    by (simp add: merge_eval cue_at_def)
  have e: "\<not> ends_before (cue_at ''1'' 3 5 ''A'') (cue_at ''1'' 3 3 ''B'')"
    by (simp add: ends_before_def time_key_def cue_at_def)
  have "\<not> track_invariant [(cue_at ''1'' 3 5 ''A'')\<lparr>sub_index := IdxInt 1\<rparr>, (cue_at ''1'' 3 3 ''B'')\<lparr>sub_index := IdxInt 2\<rparr>]"
    by (simp add: track_invariant_def ends_before_def time_key_def cue_at_def)
  moreover have "track_invariant [cue_at ''1'' 3 5 ''A'']" by (simp add: track_eval)
  moreover have "track_invariant [cue_at ''1'' 3 3 ''B'']" by (simp add: track_eval)
  ultimately show ?thesis using m e by simp
qed

text \<open>
  C4, amended. When both tracks satisfy the track invariant and every cue of the new track
  has \<open>start < end\<close>, the merged track satisfies the track invariant: every cue has
  \<open>start \<le> end\<close>, the cues are ordered by start, each cue ends before every later cue starts,
  and the indices are 1, 2, ... in that order.
\<close>

theorem merge_track_invariant:
  assumes "track_invariant old" and "track_invariant new" and "list_all positive_length new"
  shows "track_invariant (merge_subtitles old new)"
  using assms(1,3) by (rule merge_track_invariant_aux)

text \<open>C4, amended, on the spec's preservation example: A (0 to 2), C (10 to 12) and the new B (5 to 6).\<close>

theorem merge_track_invariant_witness:
  "track_invariant [cue_at ''1'' 0 2 ''A'', cue_at ''2'' 10 12 ''C'']
   \<and> track_invariant [cue_at ''1'' 5 6 ''B'']
   \<and> list_all positive_length [cue_at ''1'' 5 6 ''B'']
   \<and> track_invariant
        (merge_subtitles [cue_at ''1'' 0 2 ''A'', cue_at ''2'' 10 12 ''C''] [cue_at ''1'' 5 6 ''B''])"
proof -
  have a: "track_invariant [cue_at ''1'' 0 2 ''A'', cue_at ''2'' 10 12 ''C'']"
    by (simp add: track_eval)
  have b: "track_invariant [cue_at ''1'' 5 6 ''B'']" by (simp add: track_eval)
  have c: "list_all positive_length [cue_at ''1'' 5 6 ''B'']" by (simp add: track_eval)
  from a b c merge_track_invariant [OF a b c] show ?thesis by (intro conjI)
qed




end
